theory Spec2Isabelle
  imports Complex_Main "HOL-Library.Word" "HOL-Library.Log_Nat"
begin

section \<open>Data model\<close>

text \<open>
  The program is \<^verbatim>\<open>src/main.c\<close>: \<^verbatim>\<open>trainLayer\<close>, \<^verbatim>\<open>testLayer\<close> and \<^verbatim>\<open>main\<close>.
  The headers it includes (\<^verbatim>\<open>1lnn.h\<close>, \<^verbatim>\<open>mnist-utils.h\<close>, ...) are absent, so the
  constants \<^verbatim>\<open>NUMBER_OF_INPUT_CELLS\<close>, \<^verbatim>\<open>NUMBER_OF_OUTPUT_CELLS\<close> and
  \<^verbatim>\<open>LEARNING_RATE\<close> are parameters \<open>N\<close>, \<open>C\<close> and \<open>lr\<close> of the model.

  The arithmetic of C's \<^verbatim>\<open>double\<close> is a parameter too: a record of the operations the
  source applies. Every definition below takes it as its first argument, so that what is
  proved for an arbitrary record holds for whatever the machine's operations are.
\<close>

record 'd fpu =
  fadd :: "'d \<Rightarrow> 'd \<Rightarrow> 'd"
  fsub :: "'d \<Rightarrow> 'd \<Rightarrow> 'd"
  fmul :: "'d \<Rightarrow> 'd \<Rightarrow> 'd"
  fdiv :: "'d \<Rightarrow> 'd \<Rightarrow> 'd"
  fgt :: "'d \<Rightarrow> 'd \<Rightarrow> bool"
  fint :: "int \<Rightarrow> 'd"

text \<open>
  The finite doubles as the reals they denote: every operation rounds its exact result
  with \<open>rnd\<close>; the conversion of a C \<^verbatim>\<open>int\<close> is exact. Infinities and NaN are outside
  this instance.
\<close>

definition rfpu :: "(real \<Rightarrow> real) \<Rightarrow> real fpu" where
  "rfpu rnd =
     \<lparr>fadd = (\<lambda>x y. rnd (x + y)), fsub = (\<lambda>x y. rnd (x - y)),
      fmul = (\<lambda>x y. rnd (x * y)), fdiv = (\<lambda>x y. rnd (x / y)),
      fgt = (\<lambda>x y. y < x), fint = real_of_int\<rparr>"

text \<open>
  The rounding of IEEE 754 binary64 in its default mode, to nearest with ties to even, on
  the reals: \<open>binade x\<close> is the exponent \<open>e\<close> with \<open>2^e \<le> |x| < 2^(e+1)\<close>, not below
  the exponent \<open>-1022\<close> of the subnormal numbers; the doubles of that binade are the
  multiples of \<open>2^(e-52)\<close>. A result of magnitude \<open>2^1024\<close> or more, which the machine
  turns into an infinity, is outside this model.
\<close>

definition round_half_even :: "real \<Rightarrow> int" where
  "round_half_even x =
     (let f = \<lfloor>x\<rfloor>; d = x - of_int f
      in if d < 1/2 then f else if 1/2 < d then f + 1 else if even f then f else f + 1)"

definition binade :: "real \<Rightarrow> int" where
  "binade x = max (bitlen \<lfloor>\<bar>x\<bar> * 2 ^ 1022\<rfloor> - 1023) (- 1022)"

definition binary64 :: "real \<Rightarrow> real" where
  "binary64 x = of_int (round_half_even (x / 2 powi (binade x - 52))) * 2 powi (binade x - 52)"

text \<open>
  A cell of the layer: \<^verbatim>\<open>l->cell[i].input\<close>, \<^verbatim>\<open>.weight\<close> and \<^verbatim>\<open>.output\<close>. The cached
  input only ever receives the values 0 and 1. The arrays have \<open>N\<close> entries each.
\<close>

record 'd Cell =
  input :: "int list"
  weight :: "'d list"
  "output" :: 'd

type_synonym 'd Layer = "'d Cell list"

text \<open>
  An image is its \<open>N\<close> pixel intensities, of which the program only tests whether they
  are zero; a sample is an image with its label. Both types are declared in the absent
  \<^verbatim>\<open>mnist-utils.h\<close>.
\<close>

type_synonym MNIST_Image = "nat list"
type_synonym MNIST_Label = nat

definition wf_cell :: "nat \<Rightarrow> 'd Cell \<Rightarrow> bool" where
  "wf_cell N c = (length (input c) = N \<and> length (weight c) = N)"

definition wf_layer :: "nat \<Rightarrow> nat \<Rightarrow> 'd Layer \<Rightarrow> bool" where
  "wf_layer N C l = (length l = C \<and> list_all (wf_cell N) l)"

section \<open>The forward computation (main.c lines 84-92 and 170-177)\<close>

text \<open>
  The forward computation is written out in the loop over the cells of both
  \<^verbatim>\<open>trainLayer\<close> and \<^verbatim>\<open>testLayer\<close>; \<open>computeCell\<close> is the name the specification gives
  it. One iteration of its inner loop, at index \<open>j\<close>, on the pair of the cached input and
  the accumulator \<^verbatim>\<open>c_output\<close>:
  \<^verbatim>\<open>l->cell[i].input[j] = img.pixel[j] ? 1 : 0; if (l->cell[i].input[j]) c_output += l->cell[i].weight[j];\<close>
\<close>

definition forward_iter ::
  "'d fpu \<Rightarrow> MNIST_Image \<Rightarrow> 'd list \<Rightarrow> nat \<Rightarrow> int list \<times> 'd \<Rightarrow> int list \<times> 'd" where
  "forward_iter fp pixel w j s =
     (let inp = (fst s)[j := (if pixel ! j \<noteq> 0 then 1 else 0)]
      in (inp, if inp ! j \<noteq> 0 then fadd fp (snd s) (w ! j) else snd s))"

definition computeCell :: "'d fpu \<Rightarrow> nat \<Rightarrow> MNIST_Image \<Rightarrow> 'd Cell \<Rightarrow> 'd Cell" where
  "computeCell fp N pixel c =
     (let s = fold (forward_iter fp pixel (weight c)) [0..<N] (input c, fint fp 0)
      in c\<lparr>input := fst s, output := fdiv fp (snd s) (fint fp (int N))\<rparr>)"

section \<open>The weight update (main.c lines 94-101)\<close>

text \<open>
  The update follows the forward computation in the loop over the cells of
  \<^verbatim>\<open>trainLayer\<close>; \<open>updateCell\<close> is the name the specification gives it:
  \<^verbatim>\<open>err = targetOutput.val[i] - l->cell[i].output; temp = err * LEARNING_RATE;\<close> then, for
  every \<open>j\<close>, \<^verbatim>\<open>if (l->cell[i].input[j]) l->cell[i].weight[j] += temp;\<close>
\<close>

definition update_iter :: "'d fpu \<Rightarrow> int list \<Rightarrow> 'd \<Rightarrow> nat \<Rightarrow> 'd list \<Rightarrow> 'd list" where
  "update_iter fp inp temp j w = (if inp ! j \<noteq> 0 then w[j := fadd fp (w ! j) temp] else w)"

definition updateCell :: "'d fpu \<Rightarrow> nat \<Rightarrow> 'd \<Rightarrow> 'd \<Rightarrow> 'd Cell \<Rightarrow> 'd Cell" where
  "updateCell fp N lr target c =
     (let err = fsub fp target (output c);
          temp = fmul fp err lr
      in c\<lparr>weight := fold (update_iter fp (input c) temp) [0..<N] (weight c)\<rparr>)"

section \<open>The helpers of the absent headers\<close>

text \<open>
  Modelled from the spec: \<^verbatim>\<open>getTargetOutput\<close>, declared in the absent \<^verbatim>\<open>1lnn.h\<close>. The
  spec (4.1): a vector of length \<open>C\<close> with 1.0 at index \<open>label\<close> and 0.0 elsewhere. For a
  label outside \<open>[0, C)\<close>, where the spec leaves the result open, no entry is 1.
\<close>

definition getTargetOutput :: "'d fpu \<Rightarrow> nat \<Rightarrow> MNIST_Label \<Rightarrow> 'd list" where
  "getTargetOutput fp C lbl = map (\<lambda>i. fint fp (if i = lbl then 1 else 0)) [0..<C]"

text \<open>
  Modelled from the spec: \<^verbatim>\<open>getLayerPrediction\<close>, declared in the absent \<^verbatim>\<open>1lnn.h\<close>. The
  spec (4.2, \<open>predict\<close>): the index of the cell with the maximum output across all \<open>C\<close>
  cells; the scan order is index \<open>0..C-1\<close>, keeping the first maximum found; later equal
  values do not replace it. It reads the layer and writes nothing. \<open>gt\<close> is the
  comparison \<^verbatim>\<open>>\<close> of the outputs.
\<close>

definition getLayerPrediction :: "('d \<Rightarrow> 'd \<Rightarrow> bool) \<Rightarrow> nat \<Rightarrow> 'd Layer \<Rightarrow> nat" where
  "getLayerPrediction gt C l =
     fold (\<lambda>i maxInd. if gt (output (l ! i)) (output (l ! maxInd)) then i else maxInd) [0..<C] 0"

section \<open>The passes over the samples (main.c, trainLayer and testLayer)\<close>

text \<open>
  The loop over the output cells, \<^verbatim>\<open>for (int i=0; i < NUMBER_OF_OUTPUT_CELLS; i++)\<close>, with
  body \<open>body i\<close> on \<^verbatim>\<open>l->cell[i]\<close>. Under \<^verbatim>\<open>#pragma omp parallel for\<close> its iterations
  run in any order; iteration \<open>i\<close> reads and writes cell \<open>i\<close> only (and reads the image
  and the target vector), so every order gives the result of the ascending one.
\<close>

definition for_cells :: "nat \<Rightarrow> (nat \<Rightarrow> 'd Cell \<Rightarrow> 'd Cell) \<Rightarrow> 'd Layer \<Rightarrow> 'd Layer" where
  "for_cells C body l = fold (\<lambda>i l. l[i := body i (l ! i)]) [0..<C] l"

text \<open>
  One iteration of the loop over the images, on the layer and \<^verbatim>\<open>errCount\<close> (a C
  \<^verbatim>\<open>int\<close>): lines 68-107 for training, lines 158-181 for testing.
\<close>

definition trainLayer_iter ::
  "'d fpu \<Rightarrow> nat \<Rightarrow> nat \<Rightarrow> 'd \<Rightarrow> MNIST_Image \<times> MNIST_Label \<Rightarrow> 'd Layer \<times> 32 word
   \<Rightarrow> 'd Layer \<times> 32 word" where
  "trainLayer_iter fp N C lr smp st =
     (let img = fst smp; lbl = snd smp;
          targetOutput = getTargetOutput fp C lbl;
          l = for_cells C
                (\<lambda>i c. updateCell fp N lr (targetOutput ! i) (computeCell fp N img c)) (fst st);
          predictedNum = getLayerPrediction (fgt fp) C l
      in (l, if predictedNum \<noteq> lbl then snd st + 1 else snd st))"

definition testLayer_iter ::
  "'d fpu \<Rightarrow> nat \<Rightarrow> nat \<Rightarrow> MNIST_Image \<times> MNIST_Label \<Rightarrow> 'd Layer \<times> 32 word
   \<Rightarrow> 'd Layer \<times> 32 word" where
  "testLayer_iter fp N C smp st =
     (let img = fst smp; lbl = snd smp;
          l = for_cells C (\<lambda>i c. computeCell fp N img c) (fst st);
          predictedNum = getLayerPrediction (fgt fp) C l
      in (l, if predictedNum \<noteq> lbl then snd st + 1 else snd st))"

text \<open>
  \<^verbatim>\<open>successRate = 100.0 - (double)errCount/(double)(MNIST_MAX_..._IMAGES)*100\<close>; \<open>T\<close> is the
  number of images of the pass, and the literal \<^verbatim>\<open>100.0\<close> is the double of the integer 100.
\<close>

definition successRate :: "'d fpu \<Rightarrow> 32 word \<Rightarrow> nat \<Rightarrow> 'd" where
  "successRate fp errCount T =
     fsub fp (fint fp 100) (fmul fp (fdiv fp (fint fp (sint errCount)) (fint fp (int T))) (fint fp 100))"

text \<open>
  A pass reads the \<open>T\<close> records of its files in order; \<open>samples\<close> is that sequence. The
  result is the layer after the pass, the error count and the success rate that is printed.
\<close>

definition trainLayer ::
  "'d fpu \<Rightarrow> nat \<Rightarrow> nat \<Rightarrow> 'd \<Rightarrow> (MNIST_Image \<times> MNIST_Label) list \<Rightarrow> 'd Layer
   \<Rightarrow> 'd Layer \<times> 32 word \<times> 'd" where
  "trainLayer fp N C lr samples l =
     (let st = fold (trainLayer_iter fp N C lr) samples (l, 0)
      in (fst st, snd st, successRate fp (snd st) (length samples)))"

definition testLayer ::
  "'d fpu \<Rightarrow> nat \<Rightarrow> nat \<Rightarrow> (MNIST_Image \<times> MNIST_Label) list \<Rightarrow> 'd Layer
   \<Rightarrow> 'd Layer \<times> 32 word \<times> 'd" where
  "testLayer fp N C samples l =
     (let st = fold (testLayer_iter fp N C) samples (l, 0)
      in (fst st, snd st, successRate fp (snd st) (length samples)))"

section \<open>Concrete inputs\<close>

text \<open>
  A layer of two cells over four pixels, an image with the pixels 0 and 2 set, and the
  machine arithmetic \<open>rfpu binary64\<close>: the inputs at which the theorems below are
  evaluated.
\<close>

definition example_image :: MNIST_Image where
  "example_image = [255, 0, 7, 0]"

definition example_layer :: "real Layer" where
  "example_layer =
     [\<lparr>input = [0, 0, 0, 0], weight = [1/2, 1/2, 1/2, 1/2], output = 0\<rparr>,
      \<lparr>input = [0, 0, 0, 0], weight = [1/4, 1/4, 1/4, 1/4], output = 0\<rparr>]"

text \<open>
  A cell over two pixels whose two weights are \<open>1 - 2^-53\<close>, the largest double below 1,
  after the forward computation on an image with both pixels set.
\<close>

definition saturated_cell :: "real Cell" where
  "saturated_cell =
     computeCell (rfpu binary64) 2 [255, 255]
       \<lparr>input = [0, 0], weight = [1 - 1 / 2 ^ 53, 1 - 1 / 2 ^ 53], output = 0\<rparr>"

section \<open>Properties of the loops\<close>

lemma forward_fold:
  "n \<le> length inp \<Longrightarrow>
   fold (forward_iter fp pixel w) [0..<n] (inp, acc) =
     (map (\<lambda>j. if pixel ! j \<noteq> 0 then 1 else 0) [0..<n] @ drop n inp,
      foldl (fadd fp) acc (map (\<lambda>j. w ! j) (filter (\<lambda>j. pixel ! j \<noteq> 0) [0..<n])))"
proof (induction n)
  case 0
  then show ?case by simp
next
  case (Suc n)
  let ?b = "\<lambda>j. if pixel ! j \<noteq> 0 then (1::int) else 0"
  let ?A = "map ?b [0..<n] @ drop n inp"
  let ?B = "foldl (fadd fp) acc (map (\<lambda>j. w ! j) (filter (\<lambda>j. pixel ! j \<noteq> 0) [0..<n]))"
  have n: "n < length inp" using Suc.prems by simp
  have upd: "?A[n := ?b n] = map ?b [0..<Suc n] @ drop (Suc n) inp"
    using n by (simp add: list_update_append Cons_nth_drop_Suc [symmetric])
  have nth: "(?A[n := ?b n]) ! n = ?b n"
    using n by simp
  have "fold (forward_iter fp pixel w) [0..<Suc n] (inp, acc) = forward_iter fp pixel w n (?A, ?B)"
    using Suc.IH n by simp
  also have "\<dots> = (?A[n := ?b n], if ?b n \<noteq> 0 then fadd fp ?B (w ! n) else ?B)"
    unfolding forward_iter_def Let_def fst_conv snd_conv nth ..
  also have "\<dots> = (map ?b [0..<Suc n] @ drop (Suc n) inp,
      foldl (fadd fp) acc (map (\<lambda>j. w ! j) (filter (\<lambda>j. pixel ! j \<noteq> 0) [0..<Suc n])))"
    unfolding upd by simp
  finally show ?case .
qed

lemma computeCell_weight: "weight (computeCell fp N pixel c) = weight c"
  by (simp add: computeCell_def Let_def)

lemma computeCell_input:
  assumes "length (input c) = N" and "length pixel = N"
  shows "input (computeCell fp N pixel c) = map (\<lambda>p. if p \<noteq> 0 then 1 else 0) pixel"
proof -
  have "map (\<lambda>j. if pixel ! j \<noteq> 0 then (1::int) else 0) [0..<N] = map (\<lambda>p. if p \<noteq> 0 then 1 else 0) pixel"
    using assms(2) by (intro nth_equalityI) simp_all
  then show ?thesis
    using assms(1) by (simp add: computeCell_def Let_def forward_fold)
qed

lemma computeCell_output:
  assumes "length (input c) = N"
  shows "output (computeCell fp N pixel c) =
     fdiv fp (foldl (fadd fp) (fint fp 0)
                (map (\<lambda>j. weight c ! j) (filter (\<lambda>j. pixel ! j \<noteq> 0) [0..<N])))
             (fint fp (int N))"
  using assms by (simp add: computeCell_def Let_def forward_fold)

lemma update_fold_length: "length (fold (update_iter fp inp temp) js w) = length w"
  by (induction js arbitrary: w) (simp_all add: update_iter_def)

lemma update_iter_nth:
  "j < length w \<Longrightarrow>
   update_iter fp inp temp n w ! j =
     (if j = n \<and> inp ! n \<noteq> 0 then fadd fp (w ! n) temp else w ! j)"
  by (simp add: update_iter_def nth_list_update)

lemma update_fold_nth:
  "j < length w \<Longrightarrow>
   fold (update_iter fp inp temp) [0..<n] w ! j =
     (if j < n \<and> inp ! j \<noteq> 0 then fadd fp (w ! j) temp else w ! j)"
proof (induction n)
  case 0
  then show ?case by simp
next
  case (Suc n)
  let ?w = "fold (update_iter fp inp temp) [0..<n] w"
  have len: "length ?w = length w" by (rule update_fold_length)
  have "fold (update_iter fp inp temp) [0..<Suc n] w ! j = update_iter fp inp temp n ?w ! j"
    by simp
  also have "\<dots> = (if j = n \<and> inp ! n \<noteq> 0 then fadd fp (?w ! n) temp else ?w ! j)"
    using Suc.prems len by (simp add: update_iter_nth)
  also have "\<dots> = (if j < Suc n \<and> inp ! j \<noteq> 0 then fadd fp (w ! j) temp else w ! j)"
    using Suc by (cases "j = n") (auto simp: less_Suc_eq)
  finally show ?case .
qed

lemma updateCell_input: "input (updateCell fp N lr target c) = input c"
  by (simp add: updateCell_def Let_def)

lemma updateCell_output: "output (updateCell fp N lr target c) = output c"
  by (simp add: updateCell_def Let_def)

lemma updateCell_weight_nth:
  "j < length (weight c) \<Longrightarrow>
   weight (updateCell fp N lr target c) ! j =
     (if j < N \<and> input c ! j \<noteq> 0
      then fadd fp (weight c ! j) (fmul fp (fsub fp target (output c)) lr)
      else weight c ! j)"
  by (simp add: updateCell_def Let_def update_fold_nth)

lemma updateCell_weight_length: "length (weight (updateCell fp N lr target c)) = length (weight c)"
  by (simp add: updateCell_def Let_def update_fold_length)

lemma for_cells_length: "length (for_cells C body l) = length l"
proof -
  have "length (fold (\<lambda>i l. l[i := body i (l ! i)]) js l) = length l" for js
    by (induction js arbitrary: l) simp_all
  then show ?thesis by (simp add: for_cells_def)
qed

lemma for_cells_nth:
  assumes "i < length l"
  shows "for_cells C body l ! i = (if i < C then body i (l ! i) else l ! i)"
proof -
  have "i < length l \<Longrightarrow> fold (\<lambda>i l. l[i := body i (l ! i)]) [0..<n] l ! i =
      (if i < n then body i (l ! i) else l ! i) \<and>
      length (fold (\<lambda>i l. l[i := body i (l ! i)]) [0..<n] l) = length l" for n
  proof (induction n)
    case 0
    then show ?case by simp
  next
    case (Suc n)
    then show ?case by (cases "i = n") (auto simp: nth_list_update less_Suc_eq)
  qed
  then show ?thesis using assms by (simp add: for_cells_def)
qed

lemma for_cells_frame:
  assumes "\<And>i c. f (body i c) = f c"
  shows "map f (for_cells C body l) = map f l"
proof -
  have "map f (fold (\<lambda>i l. l[i := body i (l ! i)]) js l) = map f l" for js
  proof (induction js arbitrary: l)
    case Nil
    then show ?case by simp
  next
    case (Cons j js)
    have "map f (l[j := body j (l ! j)]) = map f l"
      by (cases "j < length l") (simp_all add: map_update assms list_update_same_conv list_update_beyond)
    then show ?case using Cons by simp
  qed
  then show ?thesis by (simp add: for_cells_def)
qed

lemma upt_4: "[0..<4] = [0, 1, 2, 3]" by (simp add: upt_rec)
lemma upt_2: "[0..<2] = [0, 1]" by (simp add: upt_rec)

lemma testLayer_iter_weights:
  "map weight (fst (testLayer_iter fp N C smp st)) = map weight (fst st)"
  by (simp add: testLayer_iter_def Let_def for_cells_frame computeCell_weight)

lemma testLayer_fold_weights:
  "map weight (fst (fold (testLayer_iter fp N C) samples st)) = map weight (fst st)"
  by (induction samples arbitrary: st) (simp_all add: testLayer_iter_weights)

lemma prediction_fold_bound:
  "fold (\<lambda>i maxInd. if gt (output (l ! i)) (output (l ! maxInd)) then i else maxInd) [0..<n] 0 \<le> n - 1"
  by (induction n) auto

lemma getLayerPrediction_bound: "0 < C \<Longrightarrow> getLayerPrediction gt C l < C"
  using prediction_fold_bound [of gt l C] by (simp add: getLayerPrediction_def)

lemma prediction_fold_cong:
  assumes "\<And>i. i < C \<Longrightarrow> output (l ! i) = output (l' ! i)" and "n \<le> C"
  shows "fold (\<lambda>i maxInd. if gt (output (l ! i)) (output (l ! maxInd)) then i else maxInd) [0..<n] 0 =
         fold (\<lambda>i maxInd. if gt (output (l' ! i)) (output (l' ! maxInd)) then i else maxInd) [0..<n] 0"
  using assms(2)
proof (induction n)
  case 0
  then show ?case by simp
next
  case (Suc n)
  let ?m = "fold (\<lambda>i maxInd. if gt (output (l' ! i)) (output (l' ! maxInd)) then i else maxInd) [0..<n] 0"
  have "?m \<le> n - 1" by (rule prediction_fold_bound)
  then have m: "?m < C" using Suc.prems by simp
  have n: "n < C" using Suc.prems by simp
  show ?case
    using Suc assms(1) [OF m] assms(1) [OF n] by simp
qed

lemma getLayerPrediction_cong:
  assumes "\<And>i. i < C \<Longrightarrow> output (l ! i) = output (l' ! i)"
  shows "getLayerPrediction gt C l = getLayerPrediction gt C l'"
  using prediction_fold_cong [of C l l' C gt] assms by (simp add: getLayerPrediction_def)

lemma prediction_fold_max:
  fixes l :: "('d::linorder) Layer"
  defines "m \<equiv> \<lambda>n. fold (\<lambda>i maxInd. if output (l ! maxInd) < output (l ! i) then i else maxInd) [0..<n] 0"
  shows "(\<forall>i<n. output (l ! i) \<le> output (l ! m n)) \<and> (\<forall>i<m n. output (l ! i) < output (l ! m n))"
proof (induction n)
  case 0
  then show ?case by (simp add: m_def)
next
  case (Suc n)
  have step: "m (Suc n) = (if output (l ! m n) < output (l ! n) then n else m n)"
    by (simp add: m_def)
  show ?case
  proof (cases "output (l ! m n) < output (l ! n)")
    case True
    then have "m (Suc n) = n" using step by simp
    moreover have "\<forall>i<n. output (l ! i) < output (l ! n)"
      using Suc True by (meson le_less_trans)
    ultimately show ?thesis by (auto simp: less_Suc_eq)
  next
    case False
    then have "m (Suc n) = m n" using step by simp
    then show ?thesis using Suc False by (auto simp: less_Suc_eq)
  qed
qed

lemma iter_errCount:
  "snd (trainLayer_iter fp N C lr smp st) = snd st \<or> snd (trainLayer_iter fp N C lr smp st) = snd st + 1"
  "snd (testLayer_iter fp N C smp st) = snd st \<or> snd (testLayer_iter fp N C smp st) = snd st + 1"
  by (simp_all add: trainLayer_iter_def testLayer_iter_def Let_def)

lemma unat_succ_le: "unat ((e::32 word) + 1) \<le> unat e + 1"
  by (metis unat_1 word_arith_nat_add mod_less_eq_dividend unat_of_nat)

lemma errCount_fold_bound:
  fixes f :: "'s \<Rightarrow> 'l \<times> 32 word \<Rightarrow> 'l \<times> 32 word"
  assumes "\<And>smp st. snd (f smp st) = snd st \<or> snd (f smp st) = snd st + 1"
  shows "unat (snd (fold f samples st)) \<le> unat (snd st) + length samples"
proof (induction samples arbitrary: st)
  case Nil
  then show ?case by simp
next
  case (Cons smp samples)
  have "unat (snd (f smp st)) \<le> unat (snd st) + 1"
    using assms [of smp st] unat_succ_le [of "snd st"] by auto
  then show ?case using Cons [of "f smp st"] by simp
qed

lemma sint_small:
  assumes "unat (e::32 word) \<le> T" and "T < 2 ^ 31"
  shows "sint e = uint e" and "0 \<le> uint e" and "uint e \<le> int T"
proof -
  have le: "uint e \<le> int T"
  proof -
    have "int (unat e) \<le> int T" using assms(1) by (simp only: of_nat_le_iff)
    then show ?thesis by simp
  qed
  have "int T < 2 ^ 31" using assms(2) by (simp only: of_nat_less_numeral_power_cancel_iff)
  with le have "uint e < 2 ^ 31" by (rule order_le_less_trans)
  moreover have "- (2 ^ 31) \<le> (0::int)" by simp
  then have "- (2 ^ 31) \<le> uint e"
    using uint_ge_0 [of e] by (rule order_trans)
  ultimately have "signed_take_bit 31 (uint e) = uint e"
    by (rule signed_take_bit_int_eq_self [rotated])
  then show "sint e = uint e" by (simp add: sint_uint)
  show "0 \<le> uint e" by simp
  show "uint e \<le> int T" by (rule le)
qed

lemma unat_succ: "unat (e::32 word) < 2 ^ 31 \<Longrightarrow> unat (e + 1) = unat e + 1"
  by (simp add: unat_add_lem [THEN iffD1])

lemma errCount_fold_count:
  fixes f :: "'s \<Rightarrow> 'l \<times> 32 word \<Rightarrow> 'l \<times> 32 word"
  assumes step: "\<And>smp st. snd (f smp st) = (if P smp (fst (f smp st)) then snd st + 1 else snd st)"
  shows "length samples < 2 ^ 31 \<Longrightarrow>
         unat (snd (fold f samples (l, 0))) =
           length (filter (\<lambda>k. P (samples ! k) (fst (fold f (take (Suc k) samples) (l, 0))))
                     [0..<length samples])"
proof (induction samples rule: rev_induct)
  case Nil
  then show ?case by simp
next
  case (snoc smp samples)
  let ?n = "length samples"
  let ?Q = "\<lambda>xs k. P (xs ! k) (fst (fold f (take (Suc k) xs) (l, 0)))"
  have len: "?n < 2 ^ 31" using snoc.prems by simp
  have IH: "unat (snd (fold f samples (l, 0))) = length (filter (?Q samples) [0..<?n])"
    using len by (rule snoc.IH)
  have old: "filter (?Q (samples @ [smp])) [0..<?n] = filter (?Q samples) [0..<?n]"
    by (intro filter_cong) (simp_all add: nth_append)
  have last: "?Q (samples @ [smp]) ?n = P smp (fst (f smp (fold f samples (l, 0))))"
    by simp
  have "length (filter (?Q samples) [0..<?n]) \<le> ?n"
    using length_filter_le [of "?Q samples" "[0..<?n]"] by simp
  then have small: "unat (snd (fold f samples (l, 0))) < 2 ^ 31"
    using IH len by simp
  have "unat (snd (fold f (samples @ [smp]) (l, 0))) =
        unat (snd (fold f samples (l, 0))) +
          (if P smp (fst (f smp (fold f samples (l, 0)))) then 1 else 0)"
    using step [of smp "fold f samples (l, 0)"] unat_succ [OF small] by simp
  also have "\<dots> = length (filter (?Q (samples @ [smp])) [0..<Suc ?n])"
    unfolding IH upt_Suc_append [OF le0] filter_append old by simp
  finally show ?case by simp
qed

lemma iter_errCount_step:
  "snd (trainLayer_iter fp N C lr smp st) =
     (if getLayerPrediction (fgt fp) C (fst (trainLayer_iter fp N C lr smp st)) \<noteq> snd smp
      then snd st + 1 else snd st)"
  "snd (testLayer_iter fp N C smp st) =
     (if getLayerPrediction (fgt fp) C (fst (testLayer_iter fp N C smp st)) \<noteq> snd smp
      then snd st + 1 else snd st)"
  by (simp_all add: trainLayer_iter_def testLayer_iter_def Let_def)

lemma upt_3: "[0..<3] = [0, 1, 2]" by (simp add: upt_rec)

lemma computeCell_input_length:
  "length (input c) = N \<Longrightarrow> length (input (computeCell fp N pixel c)) = N"
  by (simp add: computeCell_def Let_def forward_fold)

lemma computeCell_wf: "wf_cell N c \<Longrightarrow> wf_cell N (computeCell fp N pixel c)"
  by (simp add: wf_cell_def computeCell_input_length computeCell_weight)

lemma computeCell_overwrite:
  assumes "length (input c) = N"
  shows "computeCell fp N pixel (computeCell fp N pixel' c) = computeCell fp N pixel c"
proof -
  have len: "length (input (computeCell fp N pixel' c)) = N"
    using assms by (rule computeCell_input_length)
  show ?thesis
    using assms len
    by (simp add: computeCell_def [of fp N pixel] Let_def forward_fold computeCell_weight)
qed

lemma for_cells_map:
  assumes "length l = C"
  shows "for_cells C (\<lambda>i. f) l = map f l"
  using assms by (intro nth_equalityI) (simp_all add: for_cells_length for_cells_nth)

lemma for_cells_upt:
  assumes "length l = C"
  shows "for_cells C body l = map (\<lambda>i. body i (l ! i)) [0..<C]"
  using assms by (intro nth_equalityI) (simp_all add: for_cells_length for_cells_nth)

lemma testLayer_iter_layer:
  "length (fst st) = C \<Longrightarrow>
   fst (testLayer_iter fp N C smp st) = map (computeCell fp N (fst smp)) (fst st)"
  by (simp add: testLayer_iter_def Let_def for_cells_map)

lemma testLayer_fold_layer:
  assumes "samples \<noteq> []" and "wf_layer N C (fst st)"
  shows "fst (fold (testLayer_iter fp N C) samples st) =
         map (computeCell fp N (fst (last samples))) (fst st)"
  using assms
proof (induction samples arbitrary: st)
  case Nil
  then show ?case by simp
next
  case (Cons smp samples)
  let ?st = "testLayer_iter fp N C smp st"
  have len: "length (fst st) = C" and wf: "list_all (wf_cell N) (fst st)"
    using Cons.prems(2) by (simp_all add: wf_layer_def)
  have st: "fst ?st = map (computeCell fp N (fst smp)) (fst st)"
    using len by (rule testLayer_iter_layer)
  show ?case
  proof (cases "samples = []")
    case True
    then show ?thesis using st by simp
  next
    case False
    have "wf_layer N C (fst ?st)"
      unfolding st using len wf by (simp add: wf_layer_def list_all_iff computeCell_wf)
    then have "fst (fold (testLayer_iter fp N C) samples ?st) =
               map (computeCell fp N (fst (last samples))) (fst ?st)"
      using False by (intro Cons.IH)
    also have "\<dots> = map (computeCell fp N (fst (last samples))) (fst st)"
      unfolding st using wf by (simp add: list_all_iff wf_cell_def computeCell_overwrite)
    finally show ?thesis using False by simp
  qed
qed

section \<open>Properties of the rounding\<close>

lemma two_powi_less_cancel: "(2::real) powi a < 2 powi b \<Longrightarrow> a < b"
  by (rule ccontr) (use power_int_increasing [of b a "2::real"] in simp)

lemma round_half_even_of_int: "round_half_even (of_int k) = k"
  by (simp add: round_half_even_def)

lemma round_half_even_range: "\<lfloor>x\<rfloor> \<le> round_half_even x \<and> round_half_even x \<le> \<lfloor>x\<rfloor> + 1"
  by (simp add: round_half_even_def Let_def)

lemma round_half_even_mono:
  assumes "x \<le> y"
  shows "round_half_even x \<le> round_half_even y"
proof (cases "\<lfloor>x\<rfloor> = \<lfloor>y\<rfloor>")
  case True
  then show ?thesis using assms by (auto simp: round_half_even_def Let_def)
next
  case False
  then have "\<lfloor>x\<rfloor> < \<lfloor>y\<rfloor>" using floor_mono [OF assms] by simp
  then show ?thesis
    using round_half_even_range [of x] round_half_even_range [of y] by linarith
qed

lemma round_half_even_minus: "round_half_even (- x) = - round_half_even x"
proof (cases "x = of_int \<lfloor>x\<rfloor>")
  case True
  then obtain k where "x = of_int k" ..
  then show ?thesis
    using round_half_even_of_int [of k] round_half_even_of_int [of "- k"] by simp
next
  case False
  then have lt: "of_int \<lfloor>x\<rfloor> < x" using of_int_floor_le [of x] by linarith
  have ub: "x < of_int \<lfloor>x\<rfloor> + 1" by linarith
  have "\<lfloor>- x\<rfloor> = - \<lfloor>x\<rfloor> - 1"
  proof (rule floor_unique)
    show "of_int (- \<lfloor>x\<rfloor> - 1) \<le> - x"
      unfolding of_int_diff of_int_minus of_int_1 using ub by linarith
    show "- x < of_int (- \<lfloor>x\<rfloor> - 1) + 1"
      unfolding of_int_diff of_int_minus of_int_1 using lt by linarith
  qed
  then show ?thesis
    using lt by (auto simp: round_half_even_def Let_def)
qed

lemma binade_ge: "- 1022 \<le> binade x"
  by (simp add: binade_def)

lemma binade_minus: "binade (- x) = binade x"
  by (simp add: binade_def)

lemma binade_mono: "\<bar>x\<bar> \<le> \<bar>y\<bar> \<Longrightarrow> binade x \<le> binade y"
proof -
  assume "\<bar>x\<bar> \<le> \<bar>y\<bar>"
  then have "\<lfloor>\<bar>x\<bar> * 2 ^ 1022\<rfloor> \<le> \<lfloor>\<bar>y\<bar> * 2 ^ 1022\<rfloor>"
    by (intro floor_mono mult_right_mono) simp_all
  then have "bitlen \<lfloor>\<bar>x\<bar> * 2 ^ 1022\<rfloor> \<le> bitlen \<lfloor>\<bar>y\<bar> * 2 ^ 1022\<rfloor>"
    unfolding bitlen_def by (intro floorlog_mono [THEN iffD2 [OF of_nat_le_iff]] nat_mono)
  then show ?thesis unfolding binade_def by (rule max.mono [OF diff_right_mono order_refl])
qed

lemma two_powi_scaled: "(2::real) powi (int n - 1022) = 2 ^ n / 2 ^ 1022"
  by (simp add: power_int_diff)

lemma binade_cases:
  obtains (subnormal) "\<bar>x\<bar> < 2 powi (- 1022)" and "binade x = - 1022"
  | (normal) "2 powi (binade x) \<le> \<bar>x\<bar>" and "\<bar>x\<bar> < 2 powi (binade x + 1)"
proof (cases "0 < \<lfloor>\<bar>x\<bar> * 2 ^ 1022\<rfloor>")
  case False
  then have "\<bar>x\<bar> * 2 ^ 1022 < 1" by (simp add: floor_less_iff not_less) 
  then have "\<bar>x\<bar> < 1 / 2 ^ 1022" by (simp add: pos_less_divide_eq)
  then have 1: "\<bar>x\<bar> < 2 powi (- 1022)" by (simp add: power_int_minus_divide)
  have "bitlen \<lfloor>\<bar>x\<bar> * 2 ^ 1022\<rfloor> = 0" using False by (simp add: bitlen_eq_zero_iff)
  then have "binade x = - 1022" by (simp add: binade_def)
  with 1 show ?thesis by (rule subnormal)
next
  case True
  define m where "m = \<lfloor>\<bar>x\<bar> * 2 ^ 1022\<rfloor>"
  define n where "n = nat (bitlen m - 1)"
  have m: "0 < m" using True by (simp add: m_def)
  have b1: "1 \<le> bitlen m" using m bitlen_eq_zero_iff [of m] bitlen_nonneg [of m] by linarith
  have bl: "bitlen m = int n + 1" using b1 by (simp add: n_def)
  have bounds: "2 ^ n \<le> m" "m < 2 ^ Suc n"
    using bitlen_bounds [OF m] b1 by (simp_all add: n_def nat_diff_distrib flip: Suc_nat_eq_nat_zadd1)
  have e: "binade x = int n - 1022"
    unfolding binade_def m_def [symmetric] bl by simp
  have "(2::real) ^ n \<le> of_int m"
    using bounds(1) by (metis of_int_le_iff of_int_numeral of_int_power)
  also have "\<dots> \<le> \<bar>x\<bar> * 2 ^ 1022" by (simp add: m_def)
  finally have lo: "2 powi (binade x) \<le> \<bar>x\<bar>"
    unfolding e two_powi_scaled by (simp add: pos_divide_le_eq)
  have "m + 1 \<le> 2 ^ Suc n" using bounds(2) by simp
  then have "real_of_int (m + 1) \<le> 2 ^ Suc n"
    by (metis of_int_le_iff of_int_numeral of_int_power)
  moreover have "\<bar>x\<bar> * 2 ^ 1022 < real_of_int (m + 1)"
    unfolding m_def by simp
  ultimately have "\<bar>x\<bar> * 2 ^ 1022 < 2 ^ Suc n" by (rule less_le_trans [rotated])
  moreover have "binade x + 1 = int (Suc n) - 1022" using e by simp
  ultimately have hi: "\<bar>x\<bar> < 2 powi (binade x + 1)"
    by (simp only: two_powi_scaled pos_less_divide_eq zero_less_power zero_less_numeral)
  from lo hi show ?thesis by (rule normal)
qed

lemma binade_upper: "\<bar>x\<bar> < 2 powi (binade x + 1)"
proof (cases x rule: binade_cases)
  case subnormal
  have "(2::real) powi (- 1022) \<le> 2 powi (- 1022 + 1)"
    by (intro power_int_increasing) simp_all
  then show ?thesis using subnormal by simp
next
  case normal
  then show ?thesis by simp
qed

lemma binade_lower: "- 1022 < binade x \<Longrightarrow> 2 powi (binade x) \<le> \<bar>x\<bar>"
  by (cases x rule: binade_cases) simp_all

lemma binade_eqI:
  assumes "2 powi e \<le> \<bar>x\<bar>" and "\<bar>x\<bar> < 2 powi (e + 1)" and "- 1022 \<le> e"
  shows "binade x = e"
proof -
  have "(2::real) powi e < 2 powi (binade x + 1)"
    using assms(1) binade_upper [of x] by (rule le_less_trans)
  then have 1: "e \<le> binade x" using two_powi_less_cancel [of e "binade x + 1"] by simp
  have "binade x \<le> e"
  proof (cases x rule: binade_cases)
    case subnormal
    then show ?thesis using assms(3) by simp
  next
    case normal
    then have "(2::real) powi (binade x) < 2 powi (e + 1)"
      using assms(2) by (simp only: le_less_trans)
    then show ?thesis using two_powi_less_cancel [of "binade x" "e + 1"] by simp
  qed
  with 1 show ?thesis by simp
qed

lemma round_grid_le:
  assumes "0 < q" and "x \<le> of_int k * q"
  shows "of_int (round_half_even (x / q)) * q \<le> of_int k * q"
proof -
  have "x / q \<le> of_int k" using assms by (simp add: pos_divide_le_eq)
  then have "round_half_even (x / q) \<le> k"
    using round_half_even_mono [of "x / q" "of_int k"] by (simp add: round_half_even_of_int)
  then show ?thesis using assms(1) by simp
qed

lemma round_grid_ge:
  assumes "0 < q" and "of_int k * q \<le> x"
  shows "of_int k * q \<le> of_int (round_half_even (x / q)) * q"
proof -
  have "of_int k \<le> x / q" using assms by (simp add: pos_le_divide_eq)
  then have "k \<le> round_half_even (x / q)"
    using round_half_even_mono [of "of_int k" "x / q"] by (simp add: round_half_even_of_int)
  then show ?thesis using assms(1) by simp
qed

lemma quantum_pos: "0 < (2::real) powi (e - 52)"
  by simp

lemma quantum_top: "of_int (2 ^ 53) * (2::real) powi (e - 52) = 2 powi (e + 1)"
proof -
  have "e + 1 = (e - 52) + 53" by simp
  then have "(2::real) powi (e + 1) = 2 powi ((e - 52) + 53)" by (rule arg_cong)
  also have "\<dots> = 2 powi (e - 52) * 2 powi 53" by (rule power_int_add) simp
  finally show ?thesis by simp
qed

lemma quantum_bottom: "of_int (2 ^ 52) * (2::real) powi (e - 52) = 2 powi e"
proof -
  have "e = (e - 52) + 52" by simp
  then have "(2::real) powi e = 2 powi ((e - 52) + 52)" by (rule arg_cong)
  also have "\<dots> = 2 powi (e - 52) * 2 powi 52" by (rule power_int_add) simp
  finally show ?thesis by simp
qed

lemma binary64_minus: "binary64 (- x) = - binary64 x"
  by (simp add: binary64_def binade_minus round_half_even_minus)

lemma binary64_zero: "binary64 0 = 0"
  by (simp add: binary64_def round_half_even_def)

lemma binary64_le_top: "binary64 x \<le> 2 powi (binade x + 1)"
proof -
  have "x \<le> of_int (2 ^ 53) * 2 powi (binade x - 52)"
    unfolding quantum_top using binade_upper [of x] by linarith
  then show ?thesis
    unfolding binary64_def using round_grid_le [where q = "2 powi (binade x - 52)" and x = x and k = "2 ^ 53", OF quantum_pos]
    by (simp only: quantum_top)
qed

lemma binary64_ge_bottom:
  assumes "0 < x" and "- 1022 < binade x"
  shows "2 powi (binade x) \<le> binary64 x"
proof -
  have "of_int (2 ^ 52) * 2 powi (binade x - 52) \<le> x"
    unfolding quantum_bottom using binade_lower [OF assms(2)] assms(1) by linarith
  then show ?thesis
    unfolding binary64_def using round_grid_ge [where q = "2 powi (binade x - 52)" and x = x and k = "2 ^ 52", OF quantum_pos]
    by (simp only: quantum_bottom)
qed

lemma binary64_mono_up:
  assumes "x \<le> y" and "binade x \<le> binade y"
  shows "binary64 x \<le> binary64 y"
proof (cases "binade x = binade y")
  case True
  have "x / 2 powi (binade y - 52) \<le> y / 2 powi (binade y - 52)"
    using assms(1) by (simp add: divide_right_mono)
  then have "round_half_even (x / 2 powi (binade y - 52)) \<le> round_half_even (y / 2 powi (binade y - 52))"
    by (rule round_half_even_mono)
  then show ?thesis
    unfolding binary64_def True by (simp add: mult_right_mono)
next
  case False
  then have lt: "binade x < binade y" using assms(2) by simp
  have "\<not> \<bar>y\<bar> \<le> \<bar>x\<bar>" using binade_mono [of y x] lt by auto
  then have y: "0 < y" using assms(1) by linarith
  have "- 1022 < binade y" using binade_ge [of x] lt by linarith
  then have "2 powi (binade y) \<le> binary64 y" using y by (intro binary64_ge_bottom)
  moreover have "(2::real) powi (binade x + 1) \<le> 2 powi (binade y)"
    using lt by (intro power_int_increasing) simp_all
  ultimately show ?thesis using binary64_le_top [of x] by linarith
qed

lemma binary64_mono: "x \<le> y \<Longrightarrow> binary64 x \<le> binary64 y"
proof (cases "binade x \<le> binade y")
  case True
  assume "x \<le> y"
  then show ?thesis using True by (rule binary64_mono_up)
next
  case False
  assume "x \<le> y"
  then have "- y \<le> - x" by simp
  moreover have "binade (- y) \<le> binade (- x)" using False by (simp add: binade_minus)
  ultimately have "binary64 (- y) \<le> binary64 (- x)" by (rule binary64_mono_up)
  then show ?thesis by (simp add: binary64_minus)
qed

lemma binary64_eval:
  assumes "2 powi e \<le> \<bar>x\<bar>" and "\<bar>x\<bar> < 2 powi (e + 1)" and "- 1022 \<le> e"
  shows "binary64 x = of_int (round_half_even (x / 2 powi (e - 52))) * 2 powi (e - 52)"
  unfolding binary64_def binade_eqI [OF assms] ..

lemma binary64_of_nat:
  assumes "k < 2 ^ 53"
  shows "binary64 (real k) = real k"
proof (cases "k = 0")
  case True
  then show ?thesis by (simp add: binary64_zero)
next
  case False
  define e where "e = binade (real k)"
  define d where "d = nat (52 - e)"
  have "binade 1 \<le> e" unfolding e_def using False by (intro binade_mono) simp
  moreover have "binade 1 = 0" by (rule binade_eqI) simp_all
  ultimately have e0: "0 \<le> e" by simp
  then have "(2::real) powi e \<le> \<bar>real k\<bar>"
    unfolding e_def by (intro binade_lower) simp
  also have "\<bar>real k\<bar> < 2 powi 53"
    using assms by simp
  finally have "e < 53" by (rule two_powi_less_cancel)
  then have "e - 52 = - int d" by (simp add: d_def)
  then have q: "(2::real) powi (e - 52) = 1 / 2 ^ d"
    by (simp add: power_int_minus_divide)
  have "real k / (1 / 2 ^ d) = of_int (int k * 2 ^ d)" by simp
  then have "round_half_even (real k / (1 / 2 ^ d)) = int k * 2 ^ d"
    by (simp only: round_half_even_of_int)
  then show ?thesis
    unfolding binary64_def e_def [symmetric] q by simp
qed

lemma binary64_dyadic:
  assumes "\<bar>m\<bar> < 2 ^ 53" and "n \<le> 1074"
  shows "binary64 (of_int m / 2 ^ n) = of_int m / 2 ^ n"
proof -
  define x :: real where "x = of_int m / 2 ^ n"
  define b where "b = binade x"
  define d where "d = nat (52 - int n - b)"
  have le: "b \<le> 52 - int n"
  proof (cases x rule: binade_cases)
    case subnormal
    then show ?thesis using assms(2) by (simp add: b_def)
  next
    case normal
    have "\<bar>real_of_int m\<bar> < 2 ^ 53"
      using assms(1) by (metis of_int_abs of_int_less_numeral_power_cancel_iff)
    then have "\<bar>x\<bar> < 2 ^ 53 / 2 ^ n"
      by (simp add: x_def divide_strict_right_mono)
    also have "\<dots> = 2 powi (53 - int n)" by (simp add: power_int_diff)
    finally have "\<bar>x\<bar> < 2 powi (53 - int n)" .
    with normal(1) have "(2::real) powi b < 2 powi (53 - int n)"
      unfolding b_def by (rule le_less_trans)
    then show ?thesis using two_powi_less_cancel [of b "53 - int n"] by simp
  qed
  have "b - 52 = - int n - int d" using le by (simp add: d_def)
  then have q: "(2::real) powi (b - 52) = 1 / (2 ^ n * 2 ^ d)"
    by (simp add: power_int_diff power_int_minus_divide)
  have "x / (1 / (2 ^ n * 2 ^ d)) = of_int (m * 2 ^ d)" by (simp add: x_def)
  then have "round_half_even (x / (1 / (2 ^ n * 2 ^ d))) = m * 2 ^ d"
    by (simp only: round_half_even_of_int)
  then have "binary64 x = x"
    unfolding binary64_def b_def [symmetric] q by (simp add: x_def)
  then show ?thesis by (simp add: x_def)
qed

lemma foldl_rounded_bounds:
  assumes mono: "\<And>x y. x \<le> y \<Longrightarrow> rnd x \<le> rnd y"
    and fixp: "\<And>k. k \<le> N \<Longrightarrow> rnd (real k) = real k"
  shows "0 \<le> acc \<Longrightarrow> acc \<le> real a \<Longrightarrow> a + length ws \<le> N \<Longrightarrow>
         \<forall>w \<in> set ws. 0 \<le> w \<and> w < 1 \<Longrightarrow>
         0 \<le> foldl (\<lambda>x y. rnd (x + y)) acc ws \<and>
         foldl (\<lambda>x y. rnd (x + y)) acc ws \<le> real (a + length ws)"
proof (induction ws arbitrary: acc a)
  case Nil
  then show ?case by simp
next
  case (Cons w ws)
  have w: "0 \<le> w" "w < 1" using Cons.prems(4) by simp_all
  have "rnd (real 0) \<le> rnd (acc + w)" using Cons.prems(1) w by (intro mono) simp
  then have lo: "0 \<le> rnd (acc + w)" using fixp [of 0] by simp
  have "rnd (acc + w) \<le> rnd (real (Suc a))" using Cons.prems(2) w by (intro mono) simp
  then have hi: "rnd (acc + w) \<le> real (Suc a)" using fixp [of "Suc a"] Cons.prems(3) by simp
  have "0 \<le> foldl (\<lambda>x y. rnd (x + y)) (rnd (acc + w)) ws \<and>
        foldl (\<lambda>x y. rnd (x + y)) (rnd (acc + w)) ws \<le> real (Suc a + length ws)"
    using lo hi Cons.prems(3,4) by (intro Cons.IH) simp_all
  then show ?case by simp
qed

lemma binary64_values:
  "binary64 1 = 1" "binary64 (1/2) = 1/2" "binary64 (1/4) = 1/4" "binary64 (1/8) = 1/8"
  "binary64 (3/8) = 3/8" "binary64 (7/8) = 7/8" "binary64 (7/16) = 7/16"
  "binary64 (11/16) = 11/16" "binary64 100 = 100"
  using binary64_dyadic [of 1 0] binary64_dyadic [of 1 1] binary64_dyadic [of 1 2]
    binary64_dyadic [of 1 3] binary64_dyadic [of 3 3] binary64_dyadic [of 7 3]
    binary64_dyadic [of 7 4] binary64_dyadic [of 11 4] binary64_dyadic [of 100 0]
  by simp_all

text \<open>
  The rounding gives a double nearest to its argument: no double is closer. So a double
  \<open>w\<close> plus an increment rounds away from \<open>w\<close> as soon as the exact sum is beyond the
  midpoint between \<open>w\<close> and some double on that side, and only if it is at or beyond the
  midpoint between \<open>w\<close> and the result.
\<close>

lemma round_half_even_nearest:
  "\<bar>of_int (round_half_even y) - y\<bar> \<le> \<bar>of_int k - y\<bar>"
proof -
  define f where "f = \<lfloor>y\<rfloor>"
  define d where "d = y - of_int f"
  have d: "0 \<le> d" "d < 1" unfolding d_def f_def by linarith+
  have y: "y = of_int f + d" by (simp add: d_def)
  have r: "\<bar>of_int (round_half_even y) - y\<bar> \<le> d \<and> \<bar>of_int (round_half_even y) - y\<bar> \<le> 1 - d"
    unfolding round_half_even_def Let_def f_def [symmetric] d_def [symmetric]
    using d by (auto simp: y)
  show ?thesis
  proof (cases "k \<le> f")
    case True
    then have "real_of_int k \<le> of_int f" by simp
    then have "d \<le> \<bar>of_int k - y\<bar>" unfolding y using d by linarith
    then show ?thesis using r by linarith
  next
    case False
    then have "f + 1 \<le> k" by simp
    then have "real_of_int (f + 1) \<le> of_int k" by (simp only: of_int_le_iff)
    then have "1 - d \<le> \<bar>of_int k - y\<bar>" unfolding y by simp
    then show ?thesis using r by linarith
  qed
qed

lemma abs_scale: "0 < q \<Longrightarrow> \<bar>a - x / q\<bar> * q = \<bar>a * q - (x::real)\<bar>"
proof -
  assume q: "0 < q"
  then have "a * q - x = (a - x / q) * q" by (simp add: field_simps)
  then show ?thesis using q by (simp add: abs_mult)
qed

lemma binary64_grid_nearest:
  "\<bar>binary64 x - x\<bar> \<le> \<bar>of_int k * 2 powi (binade x - 52) - x\<bar>"
proof -
  define q :: real where "q = 2 powi (binade x - 52)"
  have q: "0 < q" unfolding q_def by simp
  have "\<bar>of_int (round_half_even (x / q)) - x / q\<bar> \<le> \<bar>of_int k - x / q\<bar>"
    by (rule round_half_even_nearest)
  then have "\<bar>of_int (round_half_even (x / q)) - x / q\<bar> * q \<le> \<bar>of_int k - x / q\<bar> * q"
    using q by (simp add: mult_right_mono)
  then have "\<bar>of_int (round_half_even (x / q)) * q - x\<bar> \<le> \<bar>of_int k * q - x\<bar>"
    unfolding abs_scale [OF q] .
  then show ?thesis unfolding binary64_def q_def [symmetric] .
qed

lemma double_on_grid:
  assumes "binary64 d = d" and "binade x \<le> binade d"
  shows "\<exists>k. d = of_int k * 2 powi (binade x - 52)"
proof -
  define n where "n = nat (binade d - binade x)"
  have "binade d - 52 = (binade x - 52) + int n" using assms(2) by (simp add: n_def)
  then have "(2::real) powi (binade d - 52) = 2 powi ((binade x - 52) + int n)" by (rule arg_cong)
  also have "\<dots> = 2 powi (binade x - 52) * 2 powi (int n)" by (rule power_int_add) simp
  finally have q: "(2::real) powi (binade d - 52) = 2 powi (binade x - 52) * 2 ^ n" by simp
  have "d = of_int (round_half_even (d / 2 powi (binade d - 52))) * 2 powi (binade d - 52)"
    using assms(1) by (simp add: binary64_def)
  also have "\<dots> = of_int (round_half_even (d / 2 powi (binade d - 52)) * 2 ^ n) * 2 powi (binade x - 52)"
    unfolding q by simp
  finally show ?thesis by blast
qed

lemma binary64_nearest:
  assumes "binary64 d = d"
  shows "\<bar>binary64 x - x\<bar> \<le> \<bar>d - x\<bar>"
proof (cases "binade x \<le> binade d")
  case True
  then obtain k where "d = of_int k * 2 powi (binade x - 52)"
    using double_on_grid [OF assms] by blast
  then show ?thesis using binary64_grid_nearest [of x k] by simp
next
  case False
  then have lt: "binade d < binade x" by simp
  have norm: "- 1022 < binade x" using binade_ge [of d] lt by linarith
  have lo: "2 powi (binade x) \<le> \<bar>x\<bar>" using norm by (rule binade_lower)
  have "\<bar>d\<bar> < 2 powi (binade d + 1)" by (rule binade_upper)
  also have "(2::real) powi (binade d + 1) \<le> 2 powi (binade x)"
    using lt by (intro power_int_increasing) simp_all
  finally have d: "\<bar>d\<bar> < 2 powi (binade x)" .
  show ?thesis
  proof (cases "0 \<le> x")
    case True
    have "\<bar>binary64 x - x\<bar> \<le> \<bar>of_int (2 ^ 52) * 2 powi (binade x - 52) - x\<bar>"
      by (rule binary64_grid_nearest)
    also have "\<dots> = \<bar>2 powi (binade x) - x\<bar>" by (simp only: quantum_bottom)
    also have "\<dots> \<le> \<bar>d - x\<bar>" using lo d True by linarith
    finally show ?thesis .
  next
    case False
    have "\<bar>binary64 x - x\<bar> \<le> \<bar>of_int (- (2 ^ 52)) * 2 powi (binade x - 52) - x\<bar>"
      by (rule binary64_grid_nearest)
    also have "of_int (- (2 ^ 52)) * (2::real) powi (binade x - 52) = - (of_int (2 ^ 52) * 2 powi (binade x - 52))"
      by simp
    also have "\<bar>- (of_int (2 ^ 52) * 2 powi (binade x - 52)) - x\<bar> = \<bar>- (2 powi (binade x)) - x\<bar>"
      by (simp only: quantum_bottom)
    also have "\<dots> \<le> \<bar>d - x\<bar>" using lo d False by linarith
    finally show ?thesis .
  qed
qed

lemma binary64_up_strict:
  assumes "binary64 w = w" and "binary64 d = d" and "w < d" and "w + d < 2 * x"
  shows "w < binary64 x"
proof (rule ccontr)
  assume "\<not> w < binary64 x"
  moreover have "w \<le> x" using assms(3,4) by linarith
  then have "w \<le> binary64 x" using binary64_mono [of w x] assms(1) by simp
  ultimately have eq: "binary64 x = w" by simp
  have "\<bar>binary64 x - x\<bar> \<le> \<bar>d - x\<bar>" using assms(2) by (rule binary64_nearest)
  then show False unfolding eq using assms(3,4) by linarith
qed

lemma binary64_up_only_if:
  assumes "binary64 w = w" and "w < binary64 x"
  shows "w + binary64 x \<le> 2 * x"
proof -
  have "\<bar>binary64 x - x\<bar> \<le> \<bar>w - x\<bar>" using assms(1) by (rule binary64_nearest)
  then show ?thesis using assms(2) by linarith
qed

lemma binary64_down_strict:
  assumes "binary64 w = w" and "binary64 d = d" and "d < w" and "2 * x < w + d"
  shows "binary64 x < w"
proof -
  have "- w < binary64 (- x)"
    using assms by (intro binary64_up_strict [of "- w" "- d"]) (simp_all add: binary64_minus)
  then show ?thesis by (simp add: binary64_minus)
qed

lemma binary64_down_only_if:
  assumes "binary64 w = w" and "binary64 x < w"
  shows "2 * x \<le> w + binary64 x"
proof -
  have "- w + binary64 (- x) \<le> 2 * (- x)"
    using assms by (intro binary64_up_only_if) (simp_all add: binary64_minus)
  then show ?thesis by (simp add: binary64_minus)
qed

text \<open>
  What the forward computation does under any rounding that is monotone and keeps the
  integers \<open>0..N\<close>.
\<close>

lemma rounded_output_bounds:
  assumes mono: "\<And>x y. x \<le> y \<Longrightarrow> rnd x \<le> rnd y"
    and fixp: "\<And>k. k \<le> N \<Longrightarrow> rnd (real k) = real k"
    and N: "0 < N"
    and wf: "wf_cell N c"
    and w: "\<forall>w \<in> set (weight c). 0 \<le> w \<and> w < 1"
  shows "0 \<le> output (computeCell (rfpu rnd) N pixel c) \<and>
         output (computeCell (rfpu rnd) N pixel c) \<le> 1"
proof -
  let ?ws = "map (\<lambda>j. weight c ! j) (filter (\<lambda>j. pixel ! j \<noteq> 0) [0..<N])"
  let ?s = "foldl (\<lambda>x y. rnd (x + y)) 0 ?ws"
  have len: "length (input c) = N" "length (weight c) = N"
    using wf by (simp_all add: wf_cell_def)
  have "length ?ws \<le> length [0..<N]" unfolding length_map by (rule length_filter_le)
  then have l: "0 + length ?ws \<le> N" by simp
  have ws: "\<forall>w \<in> set ?ws. 0 \<le> w \<and> w < 1"
    using w len(2) by auto
  have s: "0 \<le> ?s \<and> ?s \<le> real (0 + length ?ws)"
    using mono fixp _ _ l ws by (rule foldl_rounded_bounds) simp_all
  then have "?s \<le> real N" using l by linarith
  then have "0 \<le> ?s / real N" "?s / real N \<le> 1" using s N by simp_all
  then have "rnd (real 0) \<le> rnd (?s / real N)" "rnd (?s / real N) \<le> rnd (real 1)"
    by (simp_all add: mono)
  moreover have "rnd (real 0) = 0" "rnd (real 1) = 1" using fixp [of 0] fixp [of 1] N by simp_all
  moreover have "output (computeCell (rfpu rnd) N pixel c) = rnd (?s / real N)"
    using computeCell_output [OF len(1), of "rfpu rnd" pixel] by (simp add: rfpu_def)
  ultimately show ?thesis by simp
qed

section \<open>The concrete inputs, evaluated\<close>

lemma example_forward:
  "map (computeCell (rfpu binary64) 4 example_image) example_layer =
     [\<lparr>input = [1, 0, 1, 0], weight = [1/2, 1/2, 1/2, 1/2], output = 1/4\<rparr>,
      \<lparr>input = [1, 0, 1, 0], weight = [1/4, 1/4, 1/4, 1/4], output = 1/8\<rparr>]"
  by (simp add: example_layer_def example_image_def computeCell_def forward_iter_def rfpu_def
        upt_4 binary64_values)

lemma example_update:
  "updateCell (rfpu binary64) 4 (1/2) 0
     \<lparr>input = [1, 0, 1, 0], weight = [1/2, 1/2, 1/2, 1/2], output = 1/4\<rparr> =
     \<lparr>input = [1, 0, 1, 0], weight = [3/8, 1/2, 3/8, 1/2], output = 1/4\<rparr>"
  "updateCell (rfpu binary64) 4 (1/2) 1
     \<lparr>input = [1, 0, 1, 0], weight = [1/4, 1/4, 1/4, 1/4], output = 1/8\<rparr> =
     \<lparr>input = [1, 0, 1, 0], weight = [11/16, 1/4, 11/16, 1/4], output = 1/8\<rparr>"
  by (simp_all add: updateCell_def update_iter_def rfpu_def upt_4 binary64_values binary64_minus)

lemma example_testLayer_iter:
  "testLayer_iter (rfpu binary64) 4 2 (example_image, 1) (example_layer, 0) =
     ([\<lparr>input = [1, 0, 1, 0], weight = [1/2, 1/2, 1/2, 1/2], output = 1/4\<rparr>,
       \<lparr>input = [1, 0, 1, 0], weight = [1/4, 1/4, 1/4, 1/4], output = 1/8\<rparr>], 1)"
proof -
  have len: "length example_layer = 2" by (simp add: example_layer_def)
  have l: "for_cells 2 (\<lambda>i. computeCell (rfpu binary64) 4 example_image) example_layer =
           map (computeCell (rfpu binary64) 4 example_image) example_layer"
    using len by (rule for_cells_map)
  show ?thesis
    unfolding testLayer_iter_def Let_def fst_conv snd_conv l example_forward
    by (simp add: getLayerPrediction_def upt_2 rfpu_def)
qed

lemma example_trainLayer_iter:
  "trainLayer_iter (rfpu binary64) 4 2 (1/2) (example_image, 1) (example_layer, 0) =
     ([\<lparr>input = [1, 0, 1, 0], weight = [3/8, 1/2, 3/8, 1/2], output = 1/4\<rparr>,
       \<lparr>input = [1, 0, 1, 0], weight = [11/16, 1/4, 11/16, 1/4], output = 1/8\<rparr>], 1)"
proof -
  have c: "computeCell (rfpu binary64) 4 example_image
             \<lparr>input = [0, 0, 0, 0], weight = [1/2, 1/2, 1/2, 1/2], output = 0\<rparr> =
             \<lparr>input = [1, 0, 1, 0], weight = [1/2, 1/2, 1/2, 1/2], output = 1/4\<rparr>"
          "computeCell (rfpu binary64) 4 example_image
             \<lparr>input = [0, 0, 0, 0], weight = [1/4, 1/4, 1/4, 1/4], output = 0\<rparr> =
             \<lparr>input = [1, 0, 1, 0], weight = [1/4, 1/4, 1/4, 1/4], output = 1/8\<rparr>"
    using example_forward by (simp_all add: example_layer_def)
  have t: "getTargetOutput (rfpu binary64) 2 1 = [0, 1]"
    by (simp add: getTargetOutput_def upt_2 rfpu_def)
  have l: "for_cells 2
             (\<lambda>i c. updateCell (rfpu binary64) 4 (1/2) ([0, 1] ! i)
                      (computeCell (rfpu binary64) 4 example_image c)) example_layer =
           [\<lparr>input = [1, 0, 1, 0], weight = [3/8, 1/2, 3/8, 1/2], output = 1/4\<rparr>,
            \<lparr>input = [1, 0, 1, 0], weight = [11/16, 1/4, 11/16, 1/4], output = 1/8\<rparr>]"
    unfolding for_cells_def upt_2
    by (simp add: example_layer_def c example_update)
  show ?thesis
    unfolding trainLayer_iter_def Let_def fst_conv snd_conv t l
    by (simp add: getLayerPrediction_def upt_2 rfpu_def)
qed

lemma binary64_saturated_values:
  "binary64 (9007199254740991 / 9007199254740992) = 9007199254740991 / 9007199254740992"
  "binary64 (9007199254740991 / 4503599627370496) = 9007199254740991 / 4503599627370496"
  "binary64 (1 / 9007199254740992) = 1 / 9007199254740992"
  "binary64 (3602879701896397 / 649037107316853453566312041152512) =
     3602879701896397 / 649037107316853453566312041152512"
  using binary64_dyadic [of 9007199254740991 53] binary64_dyadic [of 9007199254740991 52]
    binary64_dyadic [of 1 53] binary64_dyadic [of 3602879701896397 109]
  by simp_all

lemma saturated_cell_fields:
  "input saturated_cell = [1, 1]"
  "weight saturated_cell = [1 - 1 / 2 ^ 53, 1 - 1 / 2 ^ 53]"
  "output saturated_cell = 1 - 1 / 2 ^ 53"
  by (simp_all add: saturated_cell_def computeCell_def forward_iter_def rfpu_def upt_2
       binary64_saturated_values)

lemma binary64_twentieth: "binary64 (1 / 20) = 3602879701896397 / 72057594037927936"
  using binary64_eval [of "- 5" "1 / 20"]
  by (simp add: round_half_even_def power_int_minus_divide)

lemma binary64_saturated_sum:
  "binary64 (649037107316853385111597705120973 / 649037107316853453566312041152512) =
     9007199254740991 / 9007199254740992"
  using binary64_eval [of "- 1" "649037107316853385111597705120973 / 649037107316853453566312041152512"]
  by (simp add: round_half_even_def power_int_minus_divide)

lemma saturated_cell_update:
  "weight (updateCell (rfpu binary64) 2 (binary64 (1 / 20)) 1 saturated_cell) ! 0 = 1 - 1 / 2 ^ 53"
  by (simp add: updateCell_def update_iter_def rfpu_def upt_2 saturated_cell_fields
     binary64_saturated_values binary64_twentieth binary64_saturated_sum)

section \<open>The claims\<close>

text \<open>
  C1. For every cell and every image, the forward computation stores the binarized image
  (a nonzero pixel gives 1, a zero pixel 0) as the cell's cached input, and sets the
  cell's output to the sum of the weights at the positions where the binarized input is
  1, accumulated in index order from 0, divided by the full feature count \<open>N\<close>.
\<close>

theorem computeCell_forward:
  assumes "wf_cell N c" and "length pixel = N"
  shows "input (computeCell fp N pixel c) = map (\<lambda>p. if p \<noteq> 0 then 1 else 0) pixel \<and>
         output (computeCell fp N pixel c) =
           fdiv fp
             (foldl (fadd fp) (fint fp 0)
                (map (\<lambda>j. weight c ! j)
                   (filter (\<lambda>j. input (computeCell fp N pixel c) ! j = 1) [0..<N])))
             (fint fp (int N))"
proof -
  have len: "length (input c) = N" using assms(1) by (simp add: wf_cell_def)
  have inp: "input (computeCell fp N pixel c) = map (\<lambda>p. if p \<noteq> 0 then 1 else 0) pixel"
    using len assms(2) by (rule computeCell_input)
  have "filter (\<lambda>j. input (computeCell fp N pixel c) ! j = 1) [0..<N] =
        filter (\<lambda>j. pixel ! j \<noteq> 0) [0..<N]"
    unfolding inp using assms(2) by (intro filter_cong) auto
  then show ?thesis
    using inp computeCell_output [OF len, of fp pixel] by simp
qed

theorem computeCell_forward_witness:
  "wf_cell 4 (example_layer ! 0) \<and> length example_image = 4 \<and>
   input (computeCell (rfpu binary64) 4 example_image (example_layer ! 0)) = [1, 0, 1, 0] \<and>
   output (computeCell (rfpu binary64) 4 example_image (example_layer ! 0)) = 1/4"
  using computeCell_forward [of 4 "example_layer ! 0" example_image "rfpu binary64"]
  by (simp add: example_layer_def example_image_def wf_cell_def rfpu_def upt_4 binary64_values)

text \<open>
  C2. For every cell, target value and learning rate, the update adds
  \<open>(target - output) * lr\<close> to the weight at every index whose cached input is 1 and
  leaves the weight at every index whose cached input is 0 unchanged.
\<close>

theorem updateCell_weights:
  assumes "length (weight c) = N" and "j < N"
  shows "(input c ! j = 1 \<longrightarrow>
            weight (updateCell fp N lr target c) ! j =
              fadd fp (weight c ! j) (fmul fp (fsub fp target (output c)) lr)) \<and>
         (input c ! j = 0 \<longrightarrow> weight (updateCell fp N lr target c) ! j = weight c ! j) \<and>
         length (weight (updateCell fp N lr target c)) = N"
  using assms by (simp add: updateCell_weight_nth updateCell_weight_length)

theorem updateCell_weights_witness:
  "length (weight \<lparr>input = [1, 0, 1, 0], weight = [1/4, 1/4, 1/4, 1/4], output = (1/8::real)\<rparr>) = 4 \<and>
   (0::nat) < 4 \<and>
   weight (updateCell (rfpu binary64) 4 (1/2) 1
             \<lparr>input = [1, 0, 1, 0], weight = [1/4, 1/4, 1/4, 1/4], output = 1/8\<rparr>) ! 0 = 11/16 \<and>
   weight (updateCell (rfpu binary64) 4 (1/2) 1
             \<lparr>input = [1, 0, 1, 0], weight = [1/4, 1/4, 1/4, 1/4], output = 1/8\<rparr>) ! 1 = 1/4"
  using updateCell_weights [of "\<lparr>input = [1, 0, 1, 0], weight = [1/4, 1/4, 1/4, 1/4], output = (1/8::real)\<rparr>" 4 0 "rfpu binary64" "1/2" 1]
    updateCell_weights [of "\<lparr>input = [1, 0, 1, 0], weight = [1/4, 1/4, 1/4, 1/4], output = (1/8::real)\<rparr>" 4 1 "rfpu binary64" "1/2" 1]
  by (simp add: rfpu_def binary64_values)

text \<open>
  C3. An evaluation pass over any sequence of samples leaves the weight vector of every
  cell as it was before the pass.
\<close>

theorem testLayer_weights_unchanged:
  "map weight (fst (testLayer fp N C samples l)) = map weight l"
  by (simp add: testLayer_def Let_def testLayer_fold_weights)

text \<open>
  C4. For every layer of \<open>C \<ge> 1\<close> cells, the prediction is an index below \<open>C\<close> of a
  cell with the maximum output; every cell before it has a strictly smaller output, so
  among equal maxima the lowest index is returned; and the prediction is a function of
  the vector of outputs alone.
\<close>

theorem getLayerPrediction_first_max:
  fixes l :: "('d::linorder) Layer"
  assumes "0 < C" and "length l = C"
  shows "getLayerPrediction (\<lambda>x y. y < x) C l < C \<and>
         (\<forall>i<C. output (l ! i) \<le> output (l ! getLayerPrediction (\<lambda>x y. y < x) C l)) \<and>
         (\<forall>i<getLayerPrediction (\<lambda>x y. y < x) C l.
            output (l ! i) < output (l ! getLayerPrediction (\<lambda>x y. y < x) C l)) \<and>
         (\<forall>l'. map output l' = map output l \<longrightarrow>
            getLayerPrediction (\<lambda>x y. y < x) C l' = getLayerPrediction (\<lambda>x y. y < x) C l)"
proof (intro conjI allI impI)
  show "getLayerPrediction (\<lambda>x y. y < x) C l < C"
    using assms(1) by (rule getLayerPrediction_bound)
next
  fix i assume "i < C"
  then show "output (l ! i) \<le> output (l ! getLayerPrediction (\<lambda>x y. y < x) C l)"
    unfolding getLayerPrediction_def using prediction_fold_max [of C l] by blast
next
  fix i assume "i < getLayerPrediction (\<lambda>x y. y < x) C l"
  then show "output (l ! i) < output (l ! getLayerPrediction (\<lambda>x y. y < x) C l)"
    unfolding getLayerPrediction_def using prediction_fold_max [of C l] by blast
next
  fix l' :: "'d Layer" assume eq: "map output l' = map output l"
  show "getLayerPrediction (\<lambda>x y. y < x) C l' = getLayerPrediction (\<lambda>x y. y < x) C l"
  proof (rule getLayerPrediction_cong)
    fix i assume i: "i < C"
    have "length l' = C" using eq assms(2) by (metis length_map)
    then have "map output l' ! i = output (l' ! i)" "map output l ! i = output (l ! i)"
      using i assms(2) by simp_all
    then show "output (l' ! i) = output (l ! i)" using eq by simp
  qed
qed

theorem getLayerPrediction_first_max_witness:
  "(0::nat) < 3 \<and>
   length [\<lparr>input = [], weight = [], output = 1/4::real\<rparr>,
           \<lparr>input = [], weight = [], output = 3/4\<rparr>,
           \<lparr>input = [], weight = [], output = 3/4\<rparr>] = 3 \<and>
   getLayerPrediction (\<lambda>x y. y < x) 3
     [\<lparr>input = [], weight = [], output = 1/4::real\<rparr>,
      \<lparr>input = [], weight = [], output = 3/4\<rparr>,
      \<lparr>input = [], weight = [], output = 3/4\<rparr>] = 1"
  using getLayerPrediction_first_max [of 3
     "[\<lparr>input = [], weight = [], output = 1/4::real\<rparr>,
       \<lparr>input = [], weight = [], output = 3/4\<rparr>,
       \<lparr>input = [], weight = [], output = 3/4\<rparr>]"]
  by (simp add: getLayerPrediction_def upt_3)

text \<open>
  C5. For a pass, training or evaluation, over \<open>T\<close> samples (\<open>T\<close> below \<open>2^31\<close>, as the
  loop counter is an \<^verbatim>\<open>int\<close>), the error count \<open>E\<close> is the number of samples at which the
  prediction, taken from the layer as that sample's iteration leaves it, differs from the
  label; it satisfies \<open>0 \<le> E \<le> T\<close>, and the success rate reported is \<open>100 - E/T*100\<close> in
  the machine's arithmetic.
\<close>

theorem pass_errCount_and_rate:
  assumes "length samples < 2 ^ 31"
  shows "(case trainLayer fp N C lr samples l of (l', errCount, rate) \<Rightarrow>
            0 \<le> sint errCount \<and> sint errCount \<le> int (length samples) \<and>
            sint errCount =
              int (length (filter
                (\<lambda>k. getLayerPrediction (fgt fp) C
                       (fst (fold (trainLayer_iter fp N C lr) (take (Suc k) samples) (l, 0))) \<noteq>
                     snd (samples ! k))
                [0..<length samples])) \<and>
            rate = fsub fp (fint fp 100)
                     (fmul fp (fdiv fp (fint fp (sint errCount)) (fint fp (int (length samples))))
                        (fint fp 100))) \<and>
         (case testLayer fp N C samples l of (l', errCount, rate) \<Rightarrow>
            0 \<le> sint errCount \<and> sint errCount \<le> int (length samples) \<and>
            sint errCount =
              int (length (filter
                (\<lambda>k. getLayerPrediction (fgt fp) C
                       (fst (fold (testLayer_iter fp N C) (take (Suc k) samples) (l, 0))) \<noteq>
                     snd (samples ! k))
                [0..<length samples])) \<and>
            rate = fsub fp (fint fp 100)
                     (fmul fp (fdiv fp (fint fp (sint errCount)) (fint fp (int (length samples))))
                        (fint fp 100)))"
proof -
  let ?tr = "snd (fold (trainLayer_iter fp N C lr) samples (l, 0))"
  let ?te = "snd (fold (testLayer_iter fp N C) samples (l, 0))"
  have tr: "unat ?tr \<le> length samples"
    using errCount_fold_bound [of "trainLayer_iter fp N C lr" samples "(l, 0)", OF iter_errCount(1)]
    by simp
  have te: "unat ?te \<le> length samples"
    using errCount_fold_bound [of "testLayer_iter fp N C" samples "(l, 0)", OF iter_errCount(2)]
    by simp
  have ctr: "uint ?tr =
      int (length (filter
        (\<lambda>k. getLayerPrediction (fgt fp) C
               (fst (fold (trainLayer_iter fp N C lr) (take (Suc k) samples) (l, 0))) \<noteq>
             snd (samples ! k))
        [0..<length samples]))"
    unfolding uint_nat
    by (rule arg_cong [where f = int], rule errCount_fold_count [OF _ assms])
       (rule iter_errCount_step(1))
  have cte: "uint ?te =
      int (length (filter
        (\<lambda>k. getLayerPrediction (fgt fp) C
               (fst (fold (testLayer_iter fp N C) (take (Suc k) samples) (l, 0))) \<noteq>
             snd (samples ! k))
        [0..<length samples]))"
    unfolding uint_nat
    by (rule arg_cong [where f = int], rule errCount_fold_count [OF _ assms])
       (rule iter_errCount_step(2))
  have str: "sint ?tr = uint ?tr" "0 \<le> uint ?tr" "uint ?tr \<le> int (length samples)"
    using sint_small [OF tr assms] by simp_all
  have ste: "sint ?te = uint ?te" "0 \<le> uint ?te" "uint ?te \<le> int (length samples)"
    using sint_small [OF te assms] by simp_all
  show ?thesis
    unfolding trainLayer_def testLayer_def Let_def successRate_def prod.case str(1) ste(1)
    using str(2,3) ste(2,3) ctr cte by simp
qed

theorem pass_errCount_and_rate_witness:
  "length [(example_image, 1::nat)] < 2 ^ 31 \<and>
   snd (trainLayer (rfpu binary64) 4 2 (1/2) [(example_image, 1)] example_layer) = (1, 0) \<and>
   snd (testLayer (rfpu binary64) 4 2 [(example_image, 1)] example_layer) = (1, 0)"
proof -
  have r: "successRate (rfpu binary64) 1 (length [(example_image, 1::nat)]) = 0"
    by (simp add: successRate_def rfpu_def binary64_values binary64_zero)
  show ?thesis
    using pass_errCount_and_rate [of "[(example_image, 1)]" "rfpu binary64" 4 2 "1/2" example_layer]
    unfolding trainLayer_def testLayer_def Let_def fold_simps example_trainLayer_iter
      example_testLayer_iter snd_conv fst_conv r
    by simp
qed

text \<open>
  C6, as stated: after one update, at every active position \<open>j\<close>, if the target differs
  from the output then the sign of the change of the weight is the sign of
  \<open>target - output\<close>. In binary64 this fails: with both weights \<open>1 - 2^-53\<close>, both pixels
  set and \<open>N = 2\<close>, the output is \<open>1 - 2^-53\<close>; for the target 1 and the learning rate
  0.05 the increment is about \<open>5.6 * 10^-18\<close>, less than half the distance \<open>2^-53\<close> from
  the weight to the next double, and the weight stays as it is.
\<close>

theorem weight_step_absorbed:
  "input saturated_cell ! 0 = 1 \<and> 1 \<noteq> output saturated_cell \<and>
   sgn (weight (updateCell (rfpu binary64) 2 (binary64 (1 / 20)) 1 saturated_cell) ! 0 -
        weight saturated_cell ! 0) \<noteq>
   sgn (1 - output saturated_cell)"
  by (simp add: saturated_cell_update saturated_cell_fields)

text \<open>
  C6, amended: after one update with a positive learning rate, at every active position
  \<open>j\<close> the weight (a double) becomes the rounded sum of the weight and the increment
  \<open>temp = (target - output) * lr\<close>. If the target equals the output it is unchanged. If
  the target differs from the output, the sign of its change is the sign of
  \<open>target - output\<close> whenever the increment exceeds half the distance from the weight to
  some double on the side of the target; the weight changes only if the increment is at
  least half the distance to the double it moves to, and otherwise it is unchanged; the
  sign of the change is never the opposite one.
\<close>

theorem weight_moves_toward_target:
  assumes repr: "binary64 (weight c ! j) = weight c ! j"
    and lr: "0 < lr"
    and len: "length (weight c) = N"
    and j: "j < N"
    and active: "input c ! j = 1"
  shows "let w = weight c ! j;
             w' = weight (updateCell (rfpu binary64) N lr target c) ! j;
             temp = fmul (rfpu binary64) (fsub (rfpu binary64) target (output c)) lr
         in w' = fadd (rfpu binary64) w temp \<and>
            (target = output c \<longrightarrow> w' = w) \<and>
            (target \<noteq> output c \<longrightarrow>
               (w' = w \<or> sgn (w' - w) = sgn (target - output c)) \<and>
               (\<forall>d. binary64 d = d \<and> sgn (d - w) = sgn (target - output c) \<and>
                    \<bar>d - w\<bar> < 2 * \<bar>temp\<bar> \<longrightarrow>
                    sgn (w' - w) = sgn (target - output c)) \<and>
               (w' \<noteq> w \<longrightarrow> \<bar>w' - w\<bar> \<le> 2 * \<bar>temp\<bar>))"
proof -
  define w where "w = weight c ! j"
  define err where "err = binary64 (target - output c)"
  define temp where "temp = binary64 (err * lr)"
  define w' where "w' = binary64 (w + temp)"
  have new: "weight (updateCell (rfpu binary64) N lr target c) ! j = w'"
    using len j active
    by (simp add: updateCell_weight_nth rfpu_def err_def temp_def w'_def w_def)
  have t: "fmul (rfpu binary64) (fsub (rfpu binary64) target (output c)) lr = temp"
    by (simp add: rfpu_def temp_def err_def)
  have a: "fadd (rfpu binary64) w temp = w'" by (simp add: rfpu_def w'_def)
  have rw: "binary64 w = w" using repr by (simp add: w_def)
  have main: "(target = output c \<longrightarrow> w' = w) \<and>
            (target \<noteq> output c \<longrightarrow>
               (w' = w \<or> sgn (w' - w) = sgn (target - output c)) \<and>
               (\<forall>d. binary64 d = d \<and> sgn (d - w) = sgn (target - output c) \<and>
                    \<bar>d - w\<bar> < 2 * \<bar>temp\<bar> \<longrightarrow>
                    sgn (w' - w) = sgn (target - output c)) \<and>
               (w' \<noteq> w \<longrightarrow> \<bar>w' - w\<bar> \<le> 2 * \<bar>temp\<bar>))"
  proof -
    consider (gt) "output c < target" | (lt) "target < output c" | (eq) "target = output c"
      by linarith
    then show ?thesis
    proof cases
      case gt
      then have "binary64 0 \<le> err" unfolding err_def by (intro binary64_mono) simp
      then have "0 \<le> err * lr" using lr by (simp add: binary64_zero)
      then have "binary64 0 \<le> temp" unfolding temp_def by (rule binary64_mono)
      then have temp: "0 \<le> temp" by (simp add: binary64_zero)
      then have "binary64 w \<le> w'" unfolding w'_def by (intro binary64_mono) simp
      then have up: "w \<le> w'" using rw by simp
      have strict: "w < w'" if "binary64 d = d" "w < d" "d - w < 2 * temp" for d
      proof -
        have "w + d < 2 * (w + temp)" using that(3) by (simp add: algebra_simps)
        with rw that(1,2) show ?thesis unfolding w'_def by (rule binary64_up_strict)
      qed
      have only: "w' - w \<le> 2 * temp" if "w < w'"
        using binary64_up_only_if [OF rw, of "w + temp"] that unfolding w'_def by argo
      have s: "sgn (target - output c) = 1" using gt by simp
      show ?thesis
        unfolding s using gt up temp strict only
        by (auto simp: sgn_1_pos abs_if not_less)
    next
      case lt
      then have "err \<le> binary64 0" unfolding err_def by (intro binary64_mono) simp
      then have "err * lr \<le> 0" using lr by (simp add: binary64_zero mult_le_0_iff)
      then have "temp \<le> binary64 0" unfolding temp_def by (rule binary64_mono)
      then have temp: "temp \<le> 0" by (simp add: binary64_zero)
      then have "w' \<le> binary64 w" unfolding w'_def by (intro binary64_mono) simp
      then have down: "w' \<le> w" using rw by simp
      have strict: "w' < w" if "binary64 d = d" "d < w" "w - d < 2 * - temp" for d
      proof -
        have "2 * (w + temp) < w + d" using that(3) by (simp add: algebra_simps)
        with rw that(1,2) show ?thesis unfolding w'_def by (rule binary64_down_strict)
      qed
      have only: "w - w' \<le> 2 * - temp" if "w' < w"
        using binary64_down_only_if [OF rw, of "w + temp"] that unfolding w'_def by argo
      have s: "sgn (target - output c) = - 1" using lt by simp
      have c1: "w' = w \<or> sgn (w' - w) = - 1"
        using down by (cases "w' = w") (simp_all add: sgn_1_neg)
      have c2: "sgn (w' - w) = - 1"
        if "binary64 d = d" "sgn (d - w) = - 1" "\<bar>d - w\<bar> < 2 * \<bar>temp\<bar>" for d
      proof -
        have "d < w" using that(2) by (simp add: sgn_1_neg)
        moreover from this have "w - d < 2 * - temp" using that(3) temp by simp
        ultimately have "w' < w" using that(1) by (intro strict)
        then show ?thesis by (simp add: sgn_1_neg)
      qed
      have c3: "\<bar>w' - w\<bar> \<le> 2 * \<bar>temp\<bar>" if "w' \<noteq> w"
      proof -
        have "w' < w" using that down by simp
        then show ?thesis using only temp by simp
      qed
      show ?thesis
        unfolding s using lt c1 c2 c3 by auto
    next
      case eq
      then have "temp = 0" by (simp add: temp_def err_def binary64_zero)
      then show ?thesis using eq rw by (simp add: w'_def)
    qed
  qed
  show ?thesis
    unfolding Let_def new t a w_def [symmetric] using main by simp
qed

theorem weight_moves_toward_target_witness:
  "binary64 (1/4) = 1/4 \<and> (0::real) < 1/2 \<and> (0::nat) < 4 \<and>
   fmul (rfpu binary64) (fsub (rfpu binary64) 1 (1/8)) (1/2) = 7/16 \<and>
   binary64 (11/16) = 11/16 \<and> sgn (11/16 - 1/4 :: real) = sgn (1 - 1/8) \<and>
   \<bar>11/16 - 1/4 :: real\<bar> < 2 * \<bar>7/16\<bar> \<and>
   weight (updateCell (rfpu binary64) 4 (1/2) 1
             \<lparr>input = [1, 0, 1, 0], weight = [1/4, 1/4, 1/4, 1/4], output = 1/8\<rparr>) ! 0 = 11/16 \<and>
   sgn (weight (updateCell (rfpu binary64) 4 (1/2) 1
                  \<lparr>input = [1, 0, 1, 0], weight = [1/4, 1/4, 1/4, 1/4], output = 1/8\<rparr>) ! 0 -
        weight \<lparr>input = [1, 0, 1, 0], weight = [1/4, 1/4, 1/4, 1/4], output = (1/8::real)\<rparr> ! 0) =
   sgn (1 - output \<lparr>input = [1, 0, 1, 0], weight = [1/4, 1/4, 1/4, 1/4], output = (1/8::real)\<rparr>)"
proof -
  have t: "fmul (rfpu binary64) (fsub (rfpu binary64) 1 (1/8)) (1/2) = 7/16"
    by (simp add: rfpu_def binary64_values)
  show ?thesis
    using weight_moves_toward_target [of
        "\<lparr>input = [1, 0, 1, 0], weight = [1/4, 1/4, 1/4, 1/4], output = 1/8\<rparr>" 0 "1/2" 4 1]
    by (simp add: example_update binary64_values t)
qed

text \<open>
  C7, as stated: no field of any cell is written by an evaluation pass. The pass writes
  the cached input and the output of every cell (main.c lines 173 and 177): on the
  example layer, whose cached inputs and outputs are all 0, one sample changes both.
\<close>

theorem testLayer_writes_cache:
  "map input (fst (testLayer (rfpu binary64) 4 2 [(example_image, 1)] example_layer)) \<noteq>
     map input example_layer \<and>
   map output (fst (testLayer (rfpu binary64) 4 2 [(example_image, 1)] example_layer)) \<noteq>
     map output example_layer"
  unfolding testLayer_def Let_def fold_simps example_testLayer_iter fst_conv
  by (simp add: example_layer_def)

text \<open>
  C7, amended: a training iteration applies the forward computation and then the update
  to every cell, once; an evaluation pass writes no weight of any cell, but it
  overwrites the cached input and the output of every cell at every sample, so that
  after a pass over at least one sample the layer is the one before the pass with the
  forward computation of the last sample applied to every cell.
\<close>

theorem testLayer_overwrites_cache:
  assumes "wf_layer N C l" and "samples \<noteq> []"
  shows "fst (testLayer fp N C samples l) = map (computeCell fp N (fst (last samples))) l \<and>
         map weight (fst (testLayer fp N C samples l)) = map weight l \<and>
         fst (trainLayer_iter fp N C lr (img, lbl) (l, errCount)) =
           map (\<lambda>i. updateCell fp N lr (getTargetOutput fp C lbl ! i) (computeCell fp N img (l ! i)))
             [0..<C]"
proof -
  have "fst (fold (testLayer_iter fp N C) samples (l, 0)) =
        map (computeCell fp N (fst (last samples))) (fst (l, 0 :: 32 word))"
    using assms(2) by (rule testLayer_fold_layer) (simp add: assms(1))
  moreover have "length l = C" using assms(1) by (simp add: wf_layer_def)
  ultimately show ?thesis
    by (simp add: testLayer_def trainLayer_iter_def Let_def computeCell_weight for_cells_upt)
qed

theorem testLayer_overwrites_cache_witness:
  "wf_layer 4 2 example_layer \<and> [(example_image, 1::nat)] \<noteq> [] \<and>
   fst (testLayer (rfpu binary64) 4 2 [(example_image, 1)] example_layer) =
     [\<lparr>input = [1, 0, 1, 0], weight = [1/2, 1/2, 1/2, 1/2], output = 1/4\<rparr>,
      \<lparr>input = [1, 0, 1, 0], weight = [1/4, 1/4, 1/4, 1/4], output = 1/8\<rparr>] \<and>
   map weight example_layer = [[1/2, 1/2, 1/2, 1/2], [1/4, 1/4, 1/4, 1/4]]"
  using testLayer_overwrites_cache [of 4 2 example_layer "[(example_image, 1)]" "rfpu binary64"
      "1/2" example_image 1 0]
  unfolding testLayer_def Let_def fold_simps example_testLayer_iter fst_conv
  by (simp add: example_layer_def wf_layer_def wf_cell_def)

text \<open>
  C8. For every cell and sample, if every weight of the cell lies in \<open>[0,1)\<close> then the
  output of the forward computation lies in \<open>[0,1]\<close> (for a feature count \<open>N\<close> from 1 to
  \<open>2^53 - 1\<close>, which binary64 holds exactly).
\<close>

theorem output_in_unit_interval:
  assumes "0 < N" and "N < 2 ^ 53"
    and "wf_cell N c"
    and "\<forall>w \<in> set (weight c). 0 \<le> w \<and> w < 1"
  shows "0 \<le> output (computeCell (rfpu binary64) N pixel c) \<and>
         output (computeCell (rfpu binary64) N pixel c) \<le> 1"
proof -
  have keep: "binary64 (real k) = real k" if "k \<le> N" for k
    using that assms(2) by (intro binary64_of_nat) simp
  show ?thesis
    using binary64_mono keep assms(1,3,4) by (rule rounded_output_bounds)
qed

theorem output_in_unit_interval_witness:
  "(0::nat) < 4 \<and> (4::nat) < 2 ^ 53 \<and> wf_cell 4 (example_layer ! 0) \<and>
   output (computeCell (rfpu binary64) 4 example_image (example_layer ! 0)) = 1/4 \<and>
   0 \<le> output (computeCell (rfpu binary64) 4 example_image (example_layer ! 0)) \<and>
   output (computeCell (rfpu binary64) 4 example_image (example_layer ! 0)) \<le> 1"
  using output_in_unit_interval [of 4 "example_layer ! 0" example_image] example_forward
  by (simp add: example_layer_def wf_cell_def)

text \<open>
  C9. The forward computation run twice in a row on the same cell with the same image
  gives the same output both times, indeed the same cell, and it leaves the weights as
  they were.
\<close>

theorem computeCell_idempotent:
  assumes "wf_cell N c"
  shows "output (computeCell fp N pixel (computeCell fp N pixel c)) =
           output (computeCell fp N pixel c) \<and>
         computeCell fp N pixel (computeCell fp N pixel c) = computeCell fp N pixel c \<and>
         weight (computeCell fp N pixel c) = weight c"
proof -
  have "length (input c) = N" using assms by (simp add: wf_cell_def)
  then have "computeCell fp N pixel (computeCell fp N pixel c) = computeCell fp N pixel c"
    by (rule computeCell_overwrite)
  then show ?thesis by (simp add: computeCell_weight)
qed

theorem computeCell_idempotent_witness:
  "wf_cell 4 (example_layer ! 0) \<and>
   output (computeCell (rfpu binary64) 4 example_image (example_layer ! 0)) = 1/4 \<and>
   output (computeCell (rfpu binary64) 4 example_image
             (computeCell (rfpu binary64) 4 example_image (example_layer ! 0))) = 1/4 \<and>
   weight (computeCell (rfpu binary64) 4 example_image (example_layer ! 0)) = [1/2, 1/2, 1/2, 1/2]"
  using computeCell_idempotent [of 4 "example_layer ! 0" "rfpu binary64" example_image]
    example_forward
  by (simp add: example_layer_def wf_cell_def)

text \<open>
  C10. The update writes the weight array only: the cached input and the output of the
  cell are as the forward computation left them. So, in a training iteration, the outputs
  in the layer when the prediction is taken, and the prediction compared with the label,
  are those of the forward computation on the weights before that sample's update.
\<close>

theorem update_keeps_outputs:
  assumes "length l = C"
  shows "input (updateCell fp N lr target c) = input c \<and>
         output (updateCell fp N lr target c) = output c \<and>
         map output (fst (trainLayer_iter fp N C lr (img, lbl) (l, errCount))) =
           map (\<lambda>c. output (computeCell fp N img c)) l \<and>
         snd (trainLayer_iter fp N C lr (img, lbl) (l, errCount)) =
           (if getLayerPrediction (fgt fp) C (map (computeCell fp N img) l) \<noteq> lbl
            then errCount + 1 else errCount)"
proof -
  let ?tr = "for_cells C (\<lambda>i c. updateCell fp N lr (getTargetOutput fp C lbl ! i) (computeCell fp N img c)) l"
  have nth: "output (?tr ! i) = output (map (computeCell fp N img) l ! i)" if "i < C" for i
    using that assms by (simp add: for_cells_nth updateCell_output)
  have len: "length ?tr = C" using assms by (simp add: for_cells_length)
  have outs: "map output ?tr = map (\<lambda>c. output (computeCell fp N img c)) l"
    using len assms nth by (intro nth_equalityI) simp_all
  have pred: "getLayerPrediction (fgt fp) C ?tr = getLayerPrediction (fgt fp) C (map (computeCell fp N img) l)"
    using nth by (rule getLayerPrediction_cong)
  show ?thesis
    using outs pred by (simp add: trainLayer_iter_def Let_def updateCell_input updateCell_output)
qed

theorem update_keeps_outputs_witness:
  "length example_layer = 2 \<and>
   output (updateCell (rfpu binary64) 4 (1/2) 0
             \<lparr>input = [1, 0, 1, 0], weight = [1/2, 1/2, 1/2, 1/2], output = 1/4\<rparr>) = 1/4 \<and>
   map output (fst (trainLayer_iter (rfpu binary64) 4 2 (1/2) (example_image, 1) (example_layer, 0))) =
     [1/4, 1/8] \<and>
   map (\<lambda>c. output (computeCell (rfpu binary64) 4 example_image c)) example_layer = [1/4, 1/8] \<and>
   snd (trainLayer_iter (rfpu binary64) 4 2 (1/2) (example_image, 1) (example_layer, 0)) = 1"
proof -
  have o: "map (\<lambda>c. output (computeCell (rfpu binary64) 4 example_image c)) example_layer =
           [1/4, 1/8]"
    using example_forward by (simp add: example_layer_def)
  show ?thesis
    using update_keeps_outputs [of example_layer 2 "rfpu binary64" 4 "1/2" 0
        "\<lparr>input = [1, 0, 1, 0], weight = [1/2, 1/2, 1/2, 1/2], output = 1/4\<rparr>"
        example_image 1 0]
    unfolding example_trainLayer_iter fst_conv snd_conv o
    by (simp add: example_layer_def)
qed

end
